theory Spec2Isabelle
  imports Main "HOL-Library.AList" "HOL-Library.Multiset"
begin

section \<open>JavaScript values, strings and plain objects\<close>

text \<open>
  The script \<^verbatim>\<open>src/sync.js\<close> is JavaScript. A JavaScript string is modelled as a
  \<^typ>\<open>string\<close> whose characters are the code units below \<open>0x100\<close>; the tab and the line
  feed, on which the script splits, and the white space that \<^verbatim>\<open>trim\<close> removes in that
  range are the ones of ECMAScript.
\<close>

definition TAB :: char where
  "TAB = CHR 0x09"

definition LF :: char where
  "LF = CHR 0x0A"

definition is_white_space :: "char \<Rightarrow> bool" where
  "is_white_space c = (c \<in> set [CHR 0x09, CHR 0x0A, CHR 0x0B, CHR 0x0C, CHR 0x0D, CHR 0x20, CHR 0xA0])"

definition trim :: "string \<Rightarrow> string" where
  "trim s = rev (dropWhile is_white_space (rev (dropWhile is_white_space s)))"

text \<open>\<^verbatim>\<open>s.split(c)\<close> for a one-character separator: the fields between the separators,
  at least one field, empty fields kept.\<close>

fun split_on :: "char \<Rightarrow> string \<Rightarrow> string list" where
  "split_on c [] = [[]]"
| "split_on c (x # xs) =
     (if x = c then [] # split_on c xs
      else (case split_on c xs of
              [] \<Rightarrow> [[x]]
            | w # ws \<Rightarrow> (x # w) # ws))"

fun starts_with :: "string \<Rightarrow> string \<Rightarrow> bool" where
  "starts_with [] s = True"
| "starts_with (p # ps) [] = False"
| "starts_with (p # ps) (x # xs) = (p = x \<and> starts_with ps xs)"

text \<open>\<^verbatim>\<open>s.replace(pat, rep)\<close> with a string pattern: only the first occurrence of
  \<open>pat\<close>, wherever it is, is replaced.\<close>

fun replace_first :: "string \<Rightarrow> string \<Rightarrow> string \<Rightarrow> string" where
  "replace_first pat rep [] = (if pat = [] then rep else [])"
| "replace_first pat rep (x # xs) =
     (if starts_with pat (x # xs) then rep @ drop (length pat) (x # xs)
      else x # replace_first pat rep xs)"

text \<open>
  The values a property read can give in this script: \<^verbatim>\<open>undefined\<close>, \<^verbatim>\<open>null\<close>, a
  string, or one of the function and object values that every plain object inherits from
  \<^verbatim>\<open>Object.prototype\<close>.
\<close>

datatype js_value = Undefined | Null | Str string | Inherited string

fun truthy :: "js_value \<Rightarrow> bool" where
  "truthy Undefined = False"
| "truthy Null = False"
| "truthy (Str s) = (s \<noteq> [])"
| "truthy (Inherited k) = True"

text \<open>
  A plain object \<^verbatim>\<open>{}\<close> whose own properties are all string-valued: the own properties
  in creation order. The property names of \<^verbatim>\<open>Object.prototype\<close> are those of ECMAScript
  with its Annex B.
\<close>

type_synonym js_object = "(string \<times> string) list"

definition object_prototype_names :: "string list" where
  "object_prototype_names =
     [''constructor'', ''__defineGetter__'', ''__defineSetter__'', ''hasOwnProperty'',
      ''__lookupGetter__'', ''__lookupSetter__'', ''isPrototypeOf'', ''propertyIsEnumerable'',
      ''toString'', ''valueOf'', ''__proto__'', ''toLocaleString'']"

text \<open>\<^verbatim>\<open>obj[k]\<close>: the own property, else the inherited one, else \<^verbatim>\<open>undefined\<close>.\<close>

definition get_prop :: "js_object \<Rightarrow> string \<Rightarrow> js_value" where
  "get_prop obj k =
     (case map_of obj k of
        Some v \<Rightarrow> Str v
      | None \<Rightarrow> if k \<in> set object_prototype_names then Inherited k else Undefined)"

text \<open>\<^verbatim>\<open>obj[k] = v\<close> on an object built from \<^verbatim>\<open>{}\<close> by such assignments only, \<open>v\<close> a
  string: the inherited setter of \<^verbatim>\<open>__proto__\<close> ignores a string, every other name
  becomes or stays an own property, a new one after the existing ones.\<close>

definition set_prop :: "js_object \<Rightarrow> string \<Rightarrow> string \<Rightarrow> js_object" where
  "set_prop obj k v = (if k = ''__proto__'' then obj else AList.update k v obj)"

definition is_digit :: "char \<Rightarrow> bool" where
  "is_digit c = (48 \<le> (of_char c :: nat) \<and> (of_char c :: nat) \<le> 57)"

definition decimal :: "string \<Rightarrow> nat" where
  "decimal s = fold (\<lambda>c n. 10 * n + (of_char c - 48)) s 0"

text \<open>An array index is the canonical decimal numeral of an integer below \<open>2^32 - 1\<close>.\<close>

definition is_array_index :: "string \<Rightarrow> bool" where
  "is_array_index s =
     (s \<noteq> [] \<and> list_all is_digit s \<and> (hd s \<noteq> CHR ''0'' \<or> s = ''0'')
      \<and> length s \<le> 10 \<and> decimal s < 4294967295)"

text \<open>\<^verbatim>\<open>Object.entries\<close> and \<^verbatim>\<open>Object.keys\<close>: array-index names in ascending numeric
  order, then the other names in creation order.\<close>

definition Object_entries :: "js_object \<Rightarrow> (string \<times> string) list" where
  "Object_entries obj =
     sort_key (\<lambda>p. decimal (fst p)) (filter (\<lambda>p. is_array_index (fst p)) obj)
     @ filter (\<lambda>p. \<not> is_array_index (fst p)) obj"

definition Object_keys :: "js_object \<Rightarrow> string list" where
  "Object_keys obj = map fst (Object_entries obj)"

section \<open>parseCommitsData\<close>

datatype js_error = TypeError | Exec_error string

text \<open>
  The body of the \<^verbatim>\<open>forEach\<close>: \<^verbatim>\<open>const [hash, ref] = line.split('\t')\<close> leaves
  \<open>ref\<close> undefined when the line has no tab, and \<^verbatim>\<open>ref.replace\<close> then throws a
  TypeError, which leaves the loop and the function.
\<close>

fun forEach_line :: "js_object \<Rightarrow> string list \<Rightarrow> js_error + js_object" where
  "forEach_line commits [] = Inr commits"
| "forEach_line commits (line # rest) =
     (case split_on TAB line of
        hash # ref # _ \<Rightarrow>
          forEach_line (set_prop commits (replace_first ''refs/heads/'' [] ref) hash) rest
      | _ \<Rightarrow> Inl TypeError)"

definition parseCommitsData :: "string \<Rightarrow> js_error + js_object" where
  "parseCommitsData commitsText =
     forEach_line [] (filter (\<lambda>line. trim line \<noteq> []) (split_on LF commitsText))"

section \<open>getBranchCommitTime and getChangedBranches\<close>

text \<open>
  A \<^verbatim>\<open>Date\<close> object: a time value in milliseconds since the epoch, or the Invalid Date,
  whose time value is NaN.
\<close>

datatype js_date = Time_value int | Invalid_Date

text \<open>
  What one request to the commit API comes to inside the \<^verbatim>\<open>try\<close> block of
  \<^verbatim>\<open>getBranchCommitTime\<close>:
  \<^item> \<open>Network_error\<close>: the fetch is rejected;
  \<^item> \<open>Http_error\<close>: the response is not ok, and the block throws;
  \<^item> \<open>Malformed_body\<close>: the body is no JSON, or has no \<^verbatim>\<open>commit\<close> or no
    \<^verbatim>\<open>commit.committer\<close>, and reading it throws;
  \<^item> \<open>Undated_body\<close>: the body has \<^verbatim>\<open>commit.committer\<close>, and its \<^verbatim>\<open>date\<close> is missing
    or is no date; nothing throws, and \<^verbatim>\<open>new Date\<close> of it is the Invalid Date;
  \<^item> \<open>Commit_date\<close>: the date is read, with this time value.
\<close>

datatype api_response =
  Network_error | Http_error nat | Malformed_body | Undated_body | Commit_date int

text \<open>Every throw of the \<^verbatim>\<open>try\<close> block is caught and gives \<^verbatim>\<open>new Date(0)\<close>; what the
  block returns without a throw is returned as it is.\<close>

definition getBranchCommitTime ::
  "(js_value \<Rightarrow> api_response) \<Rightarrow> string \<Rightarrow> js_value \<Rightarrow> js_date" where
  "getBranchCommitTime request b commitHash =
     (case request commitHash of
        Commit_date t \<Rightarrow> Time_value t
      | Undated_body \<Rightarrow> Invalid_Date
      | _ \<Rightarrow> Time_value 0)"

record change =
  branch :: string
  oldHash :: js_value
  newHash :: js_value
  commitTime :: js_date
  url :: string
  isNew :: bool

text \<open>
  The field \<open>isNew\<close> is \<open>True\<close> when the pushed object has the property
  \<^verbatim>\<open>isNew: true\<close> and \<open>False\<close> when it has no such property.

  The requests to the commit API are awaited one after the other. The parameter \<open>api\<close>
  gives the outcome of the \<open>n\<close>-th request of the run for the commit asked for (two
  requests for one commit need not have the same outcome); the loops carry the number of
  requests made so far beside the array \<open>changedBranches\<close>.
\<close>

definition tree_url :: "string \<Rightarrow> string" where
  "tree_url b = ''https://github.com/cmliu/edgetunnel/tree/'' @ b"

fun updated_loop ::
  "(nat \<Rightarrow> js_value \<Rightarrow> api_response) \<Rightarrow> js_object \<Rightarrow> (string \<times> string) list
    \<Rightarrow> change list \<times> nat \<Rightarrow> change list \<times> nat" where
  "updated_loop api oldCommits [] st = st"
| "updated_loop api oldCommits ((b, h) # rest) (changedBranches, n) =
     (if get_prop oldCommits b \<noteq> Str h
      then updated_loop api oldCommits rest
             (changedBranches @
                [\<lparr>branch = b, oldHash = get_prop oldCommits b, newHash = Str h,
                  commitTime = getBranchCommitTime (api n) b (Str h),
                  url = tree_url b, isNew = False\<rparr>],
              Suc n)
      else updated_loop api oldCommits rest (changedBranches, n))"

fun added_loop ::
  "(nat \<Rightarrow> js_value \<Rightarrow> api_response) \<Rightarrow> js_object \<Rightarrow> js_object \<Rightarrow> string list
    \<Rightarrow> change list \<times> nat \<Rightarrow> change list \<times> nat" where
  "added_loop api oldCommits newCommits [] st = st"
| "added_loop api oldCommits newCommits (b # rest) (changedBranches, n) =
     (if \<not> truthy (get_prop oldCommits b)
      then added_loop api oldCommits newCommits rest
             (changedBranches @
                [\<lparr>branch = b, oldHash = Null, newHash = get_prop newCommits b,
                  commitTime = getBranchCommitTime (api n) b (get_prop newCommits b),
                  url = tree_url b, isNew = True\<rparr>],
              Suc n)
      else added_loop api oldCommits newCommits rest (changedBranches, n))"

text \<open>The array before the final sort.\<close>

definition pushed_changes ::
  "(nat \<Rightarrow> js_value \<Rightarrow> api_response) \<Rightarrow> js_object \<Rightarrow> js_object \<Rightarrow> change list" where
  "pushed_changes api oldCommits newCommits =
     fst (added_loop api oldCommits newCommits (Object_keys newCommits)
            (updated_loop api oldCommits (Object_entries newCommits) ([], 0)))"

text \<open>
  \<^verbatim>\<open>changedBranches.sort((a, b) => a.commitTime - b.commitTime)\<close>. The comparator
  subtracts the time values; with an Invalid Date on either side the difference is NaN,
  which the sort reads as \<open>+0\<close>. Only the sign of the result is used.
\<close>

definition compare_commitTime :: "change \<Rightarrow> change \<Rightarrow> int" where
  "compare_commitTime a b =
     (case commitTime a of
        Invalid_Date \<Rightarrow> 0
      | Time_value s \<Rightarrow> (case commitTime b of Invalid_Date \<Rightarrow> 0 | Time_value t \<Rightarrow> s - t))"

text \<open>
  While all dates are valid the comparator is consistent and every engine returns the one
  stable sort of the array. With an Invalid Date it is not, and ECMAScript leaves the order
  to the engine. The sort below is the one of V8 (Node 11 and later) on an array of fewer
  than 64 entries: it measures the run the array starts with, ascending or strictly
  descending, reverses a descending run, and puts each later entry into the sorted part by
  binary insertion. On 64 entries and more V8 cuts the array into such runs and merges
  them, which gives the same array when all dates are valid.
\<close>

fun run_tail :: "bool \<Rightarrow> change \<Rightarrow> change list \<Rightarrow> nat" where
  "run_tail isDescending previousElement [] = 0"
| "run_tail isDescending previousElement (currentElement # rest) =
     (if (if isDescending then compare_commitTime currentElement previousElement \<ge> 0
          else compare_commitTime currentElement previousElement < 0)
      then 0
      else Suc (run_tail isDescending currentElement rest))"

definition count_and_make_run :: "change list \<Rightarrow> nat \<times> change list" where
  "count_and_make_run xs =
     (case xs of
        elementHigh # elementLow # rest \<Rightarrow>
          (let isDescending = compare_commitTime elementLow elementHigh < 0;
               runLength = 2 + run_tail isDescending elementLow rest
           in (runLength,
               if isDescending then rev (take runLength xs) @ drop runLength xs else xs))
      | _ \<Rightarrow> (length xs, xs))"

function binary_search :: "change \<Rightarrow> change list \<Rightarrow> nat \<Rightarrow> nat \<Rightarrow> nat" where
  "binary_search pivot xs left right =
     (if left < right
      then (if compare_commitTime pivot (xs ! (left + (right - left) div 2)) < 0
            then binary_search pivot xs left (left + (right - left) div 2)
            else binary_search pivot xs (left + (right - left) div 2 + 1) right)
      else left)"
  by pat_completeness auto
termination
  by (relation "measure (\<lambda>(pivot, xs, left, right). right - left)") auto

declare binary_search.simps [simp del]

definition insert_at :: "change list \<Rightarrow> nat \<Rightarrow> change list" where
  "insert_at xs start =
     (let pivot = xs ! start;
          left = binary_search pivot xs 0 start
      in take left xs @ pivot # take (start - left) (drop left xs) @ drop (Suc start) xs)"

definition binary_insertion_sort :: "change list \<Rightarrow> nat \<Rightarrow> change list" where
  "binary_insertion_sort xs startArg =
     fold (\<lambda>start ys. insert_at ys start)
       [(if startArg = 0 then 1 else startArg)..<length xs] xs"

definition array_sort :: "change list \<Rightarrow> change list" where
  "array_sort xs =
     (if length xs < 2 then xs
      else (case count_and_make_run xs of
              (runLength, ys) \<Rightarrow>
                if runLength < length xs then binary_insertion_sort ys runLength else ys))"

definition getChangedBranches ::
  "(nat \<Rightarrow> js_value \<Rightarrow> api_response) \<Rightarrow> js_object \<Rightarrow> js_object \<Rightarrow> change list" where
  "getChangedBranches api oldCommits newCommits =
     array_sort (pushed_changes api oldCommits newCommits)"

text \<open>
  The pushes of the two loops without their time stamps, for the proofs: which objects are
  pushed, and in which order, does not depend on the answers of the commit API.
\<close>

definition updated_items :: "js_object \<Rightarrow> (string \<times> string) list \<Rightarrow> change list" where
  "updated_items oldCommits es =
     map (\<lambda>p. \<lparr>branch = fst p, oldHash = get_prop oldCommits (fst p), newHash = Str (snd p),
                commitTime = Time_value 0, url = tree_url (fst p), isNew = False\<rparr>)
       (filter (\<lambda>p. get_prop oldCommits (fst p) \<noteq> Str (snd p)) es)"

definition added_items :: "js_object \<Rightarrow> js_object \<Rightarrow> string list \<Rightarrow> change list" where
  "added_items oldCommits newCommits ks =
     map (\<lambda>b. \<lparr>branch = b, oldHash = Null, newHash = get_prop newCommits b,
                commitTime = Time_value 0, url = tree_url b, isNew = True\<rparr>)
       (filter (\<lambda>b. \<not> truthy (get_prop oldCommits b)) ks)"

definition pushed_items :: "js_object \<Rightarrow> js_object \<Rightarrow> change list" where
  "pushed_items oldCommits newCommits =
     updated_items oldCommits (Object_entries newCommits)
     @ added_items oldCommits newCommits (Object_keys newCommits)"

definition stamp :: "(nat \<Rightarrow> js_value \<Rightarrow> api_response) \<Rightarrow> nat \<times> change \<Rightarrow> change" where
  "stamp api p =
     (snd p)\<lparr>commitTime := getBranchCommitTime (api (fst p)) (branch (snd p)) (newHash (snd p))\<rparr>"

text \<open>For the statements about order: an entry is dated when its commit time is a valid
  date, and then has that time value.\<close>

definition dated :: "change \<Rightarrow> bool" where
  "dated c = (commitTime c \<noteq> Invalid_Date)"

definition time_of :: "change \<Rightarrow> int" where
  "time_of c = (case commitTime c of Time_value t \<Rightarrow> t | Invalid_Date \<Rightarrow> 0)"

section \<open>The run\<close>

text \<open>
  What a run finds outside itself: whether both Telegram settings are there, what
  \<^verbatim>\<open>git ls-remote\<close> prints or the error \<^verbatim>\<open>execSync\<close> throws, the content of
  \<^verbatim>\<open>last_commit.txt\<close> if the file exists, whether the local copy exists, whether
  \<^verbatim>\<open>rm -rf\<close> and \<^verbatim>\<open>git clone\<close> fail, and the answers of the commit API. File system
  reads and writes are taken to succeed. The last three fields are read by the older
  script only.
\<close>

record world =
  telegram_configured :: bool
  ls_remote_output :: "js_error + string"
  last_commit_file :: "string option"
  local_repo_exists :: bool
  rm_local_repo :: "js_error option"
  git_clone :: "js_error option"
  commit_api :: "nat \<Rightarrow> js_value \<Rightarrow> api_response"
  ls_remote_heads_output :: "js_error + string"
  branches_dir_exists :: bool
  rm_branches_dir :: "js_error option"

text \<open>
  The texts handed to \<^verbatim>\<open>sendTelegramMessage\<close>, by what they are built from: the report
  of the changed branches, the notice that no branch could be named, the failure notice
  with the message of the error, and the older script's list of branches.
\<close>

datatype message =
    Update_report "change list"
  | Undetermined_report
  | Failure_report js_error
  | Synced_report "string list"

text \<open>The commands run and the writes made, in order; reads and log lines are left out.\<close>

datatype event =
    Rm_local_repo
  | Git_clone
  | Write_last_commits string
  | Telegram_post message
  | Rm_branches_dir
  | Copy_branch_files string
  | Write_branches_index "string list"

record outcome =
  file_after :: "string option"
  events :: "event list"
  exit_status :: nat

text \<open>\<^verbatim>\<open>sendTelegramMessage\<close> returns at once without the settings, and catches every
  error of the request.\<close>

definition sendTelegramMessage :: "world \<Rightarrow> message \<Rightarrow> event list" where
  "sendTelegramMessage w text = (if \<not> telegram_configured w then [] else [Telegram_post text])"

definition getLatestCommits :: "world \<Rightarrow> js_error + string" where
  "getLatestCommits w =
     (case ls_remote_output w of Inl err \<Rightarrow> Inl err | Inr output \<Rightarrow> Inr (trim output))"

definition readLastCommits :: "world \<Rightarrow> string" where
  "readLastCommits w = (case last_commit_file w of Some content \<Rightarrow> trim content | None \<Rightarrow> [])"

text \<open>\<^verbatim>\<open>syncRepo\<close>: the commands it ran, and the error it rethrows if one of them failed.\<close>

definition syncRepo :: "world \<Rightarrow> event list \<times> js_error option" where
  "syncRepo w =
     (if local_repo_exists w
      then (case rm_local_repo w of
              Some err \<Rightarrow> ([Rm_local_repo], Some err)
            | None \<Rightarrow>
                (case git_clone w of
                   Some err \<Rightarrow> ([Rm_local_repo, Git_clone], Some err)
                 | None \<Rightarrow> ([Rm_local_repo, Git_clone], None)))
      else (case git_clone w of
              Some err \<Rightarrow> ([Git_clone], Some err)
            | None \<Rightarrow> ([Git_clone], None)))"

text \<open>
  Building the message. \<^verbatim>\<open>oldHash ? oldHash.substring(0, 7) : ...\<close> is evaluated for
  every entry, before \<open>isNew\<close> is looked at; a truthy \<open>oldHash\<close> that is not a string
  has no \<^verbatim>\<open>substring\<close>, and the call throws a TypeError. Formatting an Invalid Date
  gives the text \<^verbatim>\<open>Invalid Date\<close> and throws nothing.
\<close>

definition build_message :: "change list \<Rightarrow> js_error + message" where
  "build_message changedBranches =
     (if changedBranches \<noteq> []
      then (if list_ex (\<lambda>c. case oldHash c of Inherited k \<Rightarrow> True | _ \<Rightarrow> False) changedBranches
            then Inl TypeError
            else Inr (Update_report changedBranches))
      else Inr Undetermined_report)"

text \<open>The \<^verbatim>\<open>catch\<close> of \<^verbatim>\<open>main\<close>: the failure notice, then \<^verbatim>\<open>process.exit(1)\<close>.
  \<^verbatim>\<open>getRepoLastUpdateTime\<close> catches its own errors and its date is only logged, so
  \<open>main\<close> below leaves it out.\<close>

definition fatal :: "world \<Rightarrow> string option \<Rightarrow> event list \<Rightarrow> js_error \<Rightarrow> outcome" where
  "fatal w f evs err =
     \<lparr>file_after = f, events = evs @ sendTelegramMessage w (Failure_report err),
      exit_status = 1\<rparr>"

definition main :: "world \<Rightarrow> outcome" where
  "main w =
     (case getLatestCommits w of
        Inl err \<Rightarrow> fatal w (last_commit_file w) [] err
      | Inr latestText \<Rightarrow>
          (let lastText = readLastCommits w in
           if latestText \<noteq> lastText
           then (case (if lastText \<noteq> [] then parseCommitsData lastText else Inr []) of
                   Inl err \<Rightarrow> fatal w (last_commit_file w) [] err
                 | Inr oldCommits \<Rightarrow>
                     (case parseCommitsData latestText of
                        Inl err \<Rightarrow> fatal w (last_commit_file w) [] err
                      | Inr newCommits \<Rightarrow>
                          (let changedBranches =
                                 getChangedBranches (commit_api w) oldCommits newCommits
                           in case syncRepo w of
                                (evs, Some err) \<Rightarrow> fatal w (last_commit_file w) evs err
                              | (evs, None) \<Rightarrow>
                                  (case build_message changedBranches of
                                     Inl err \<Rightarrow>
                                       fatal w (Some latestText)
                                         (evs @ [Write_last_commits latestText]) err
                                   | Inr text \<Rightarrow>
                                       \<lparr>file_after = Some latestText,
                                        events = evs @ [Write_last_commits latestText]
                                                   @ sendTelegramMessage w text,
                                        exit_status = 0\<rparr>))))
           else \<lparr>file_after = last_commit_file w, events = [], exit_status = 0\<rparr>))"

subsection \<open>The older script\<close>

text \<open>
  \<^verbatim>\<open>src/unnamed/part_000\<close> holds an older \<^verbatim>\<open>main\<close>: it clones, lists the branches
  again, extracts each one (\<^verbatim>\<open>copyBranchFiles\<close> catches its own errors), writes an index
  and the snapshot, and sends the list of branches.
\<close>

fun branch_names :: "string list \<Rightarrow> js_error + string list" where
  "branch_names [] = Inr []"
| "branch_names (line # rest) =
     (case split_on TAB line of
        _ # ref # _ \<Rightarrow>
          (case branch_names rest of
             Inl err \<Rightarrow> Inl err
           | Inr bs \<Rightarrow> Inr (replace_first ''refs/heads/'' [] ref # bs))
      | _ \<Rightarrow> Inl TypeError)"

definition getAllBranches :: "world \<Rightarrow> js_error + string list" where
  "getAllBranches w =
     (case ls_remote_heads_output w of
        Inl err \<Rightarrow> Inl err
      | Inr output \<Rightarrow> branch_names (filter (\<lambda>line. line \<noteq> []) (split_on LF (trim output))))"

definition main_legacy :: "world \<Rightarrow> outcome" where
  "main_legacy w =
     (case getLatestCommits w of
        Inl err \<Rightarrow> fatal w (last_commit_file w) [] err
      | Inr latest \<Rightarrow>
          (let last = readLastCommits w in
           if latest \<noteq> last
           then (case syncRepo w of
                   (evs, Some err) \<Rightarrow> fatal w (last_commit_file w) evs err
                 | (evs, None) \<Rightarrow>
                     (case getAllBranches w of
                        Inl err \<Rightarrow> fatal w (last_commit_file w) evs err
                      | Inr branches \<Rightarrow>
                          (let evs' = evs @ (if branches_dir_exists w then [Rm_branches_dir] else [])
                           in case (if branches_dir_exists w then rm_branches_dir w else None) of
                                Some err \<Rightarrow> fatal w (last_commit_file w) evs' err
                              | None \<Rightarrow>
                                  \<lparr>file_after = Some latest,
                                   events =
                                     evs' @ map Copy_branch_files branches
                                     @ [Write_branches_index branches, Write_last_commits latest]
                                     @ sendTelegramMessage w (Synced_report branches),
                                   exit_status = 0\<rparr>)))
           else \<lparr>file_after = last_commit_file w, events = [], exit_status = 0\<rparr>))"

section \<open>Notions of the specification\<close>

text \<open>
  The words of the claims about \<^verbatim>\<open>parseCommitsData\<close>, written down on their own: a blank
  line, the hash and the ref that the first tab of a line separates, the branch the line
  names, and the hash of the last line that names a branch.
\<close>

definition blank :: "string \<Rightarrow> bool" where
  "blank line = list_all is_white_space line"

definition line_hash :: "string \<Rightarrow> string" where
  "line_hash line = takeWhile (\<lambda>c. c \<noteq> TAB) line"

definition line_ref :: "string \<Rightarrow> string" where
  "line_ref line = takeWhile (\<lambda>c. c \<noteq> TAB) (drop 1 (dropWhile (\<lambda>c. c \<noteq> TAB) line))"

definition line_branch :: "string \<Rightarrow> string" where
  "line_branch line = replace_first ''refs/heads/'' [] (line_ref line)"

definition named_bindings :: "string \<Rightarrow> (string \<times> string) list" where
  "named_bindings commitsText =
     map (\<lambda>line. (line_branch line, line_hash line))
       (filter (\<lambda>line. \<not> blank line) (split_on LF commitsText))"

definition last_binding :: "string \<Rightarrow> string \<Rightarrow> string option" where
  "last_binding commitsText b = map_of (rev (named_bindings commitsText)) b"

definition store_line :: "string \<Rightarrow> js_object \<Rightarrow> js_object" where
  "store_line line commits = set_prop commits (line_branch line) (line_hash line)"

text \<open>A run gets as far as \<^verbatim>\<open>syncRepo\<close> when the listing succeeds, the two texts differ
  and both parse.\<close>

definition returns :: "'e + 'a \<Rightarrow> bool" where
  "returns r = (case r of Inl err \<Rightarrow> False | Inr v \<Rightarrow> True)"

definition reaches_syncRepo :: "world \<Rightarrow> bool" where
  "reaches_syncRepo w =
     (case getLatestCommits w of
        Inl err \<Rightarrow> False
      | Inr latestText \<Rightarrow>
          latestText \<noteq> readLastCommits w
          \<and> (readLastCommits w = [] \<or> returns (parseCommitsData (readLastCommits w)))
          \<and> returns (parseCommitsData latestText))"

text \<open>Two runs to try the theorems on: one that finds the remote as the snapshot file has
  it, and a first run whose clone fails.\<close>

definition unchanged_world :: world where
  "unchanged_world =
     \<lparr>telegram_configured = True,
      ls_remote_output = Inr (''aaa1111'' @ [TAB] @ ''refs/heads/main'' @ [LF]),
      last_commit_file = Some (''aaa1111'' @ [TAB] @ ''refs/heads/main''),
      local_repo_exists = True,
      rm_local_repo = None,
      git_clone = None,
      commit_api = (\<lambda>n h. Network_error),
      ls_remote_heads_output = Inr (''aaa1111'' @ [TAB] @ ''refs/heads/main'' @ [LF]),
      branches_dir_exists = True,
      rm_branches_dir = None\<rparr>"

definition clone_fails_world :: world where
  "clone_fails_world =
     \<lparr>telegram_configured = True,
      ls_remote_output = Inr (''aaa1111'' @ [TAB] @ ''refs/heads/main'' @ [LF]),
      last_commit_file = None,
      local_repo_exists = False,
      rm_local_repo = None,
      git_clone = Some (Exec_error ''Command failed: git clone''),
      commit_api = (\<lambda>n h. Network_error),
      ls_remote_heads_output = Inr [],
      branches_dir_exists = False,
      rm_branches_dir = None\<rparr>"

section \<open>The sort\<close>

lemma binary_search_done: "\<not> left < right \<Longrightarrow> binary_search pivot xs left right = left"
  by (subst binary_search.simps) simp

lemma binary_search_lower:
  "left < right \<Longrightarrow> compare_commitTime pivot (xs ! (left + (right - left) div 2)) < 0 \<Longrightarrow>
     binary_search pivot xs left right
     = binary_search pivot xs left (left + (right - left) div 2)"
  by (subst binary_search.simps) simp

lemma binary_search_upper:
  "left < right \<Longrightarrow> \<not> compare_commitTime pivot (xs ! (left + (right - left) div 2)) < 0 \<Longrightarrow>
     binary_search pivot xs left right
     = binary_search pivot xs (left + (right - left) div 2 + 1) right"
  by (subst binary_search.simps) simp

lemma binary_search_bounds:
  "left \<le> right \<Longrightarrow>
     left \<le> binary_search pivot xs left right \<and> binary_search pivot xs left right \<le> right"
proof (induction pivot xs left right rule: binary_search.induct)
  case (1 pivot xs left right)
  show ?case
  proof (cases "left < right")
    case False
    then show ?thesis using "1.prems" by (simp add: binary_search_done)
  next
    case True
    let ?mid = "left + (right - left) div 2"
    have mid: "left \<le> ?mid" "?mid < right" using True by auto
    show ?thesis
    proof (cases "compare_commitTime pivot (xs ! ?mid) < 0")
      case less: True
      have "left \<le> binary_search pivot xs left ?mid \<and> binary_search pivot xs left ?mid \<le> ?mid"
        using "1.IH"(1)[OF True less] mid by simp
      then show ?thesis
        using mid by (simp add: binary_search_lower[OF True less])
    next
      case geq: False
      have "?mid + 1 \<le> binary_search pivot xs (?mid + 1) right
            \<and> binary_search pivot xs (?mid + 1) right \<le> right"
        using "1.IH"(2)[OF True geq] mid by simp
      then show ?thesis
        using mid by (simp add: binary_search_upper[OF True geq])
    qed
  qed
qed

lemma insert_at_split:
  assumes "start < length xs" and "left \<le> start"
  shows "xs = take left xs @ take (start - left) (drop left xs) @ xs ! start # drop (Suc start) xs"
proof -
  have "take left xs @ take (start - left) (drop left xs) = take start xs"
    using assms(2) by (metis le_add_diff_inverse take_add)
  then show ?thesis
    using assms(1) by (simp add: id_take_nth_drop flip: append_assoc)
qed

lemma mset_insert_at: "start < length xs \<Longrightarrow> mset (insert_at xs start) = mset xs"
proof -
  assume s: "start < length xs"
  let ?left = "binary_search (xs ! start) xs 0 start"
  have l: "?left \<le> start" using binary_search_bounds[of 0 start] by simp
  have "mset xs = mset (take ?left xs @ take (start - ?left) (drop ?left xs)
                        @ xs ! start # drop (Suc start) xs)"
    using insert_at_split[OF s l] by simp
  then show ?thesis
    by (simp add: insert_at_def Let_def)
qed

lemma length_insert_at: "start < length xs \<Longrightarrow> length (insert_at xs start) = length xs"
  using arg_cong[OF mset_insert_at, of start xs size] by simp

lemma mset_fold_insert_at:
  "\<forall>s\<in>set ss. s < length xs \<Longrightarrow> mset (fold (\<lambda>start ys. insert_at ys start) ss xs) = mset xs"
proof (induction ss arbitrary: xs)
  case Nil
  then show ?case by simp
next
  case (Cons s ss)
  have "\<forall>t\<in>set ss. t < length (insert_at xs s)"
    using Cons.prems by (simp add: length_insert_at)
  then show ?case
    using Cons.IH[of "insert_at xs s"] Cons.prems by (simp add: mset_insert_at)
qed

lemma mset_binary_insertion_sort: "mset (binary_insertion_sort xs startArg) = mset xs"
  unfolding binary_insertion_sort_def by (rule mset_fold_insert_at) simp

lemma mset_rev_take_drop: "mset (rev (take n xs) @ drop n xs) = mset xs"
  by (metis append_take_drop_id mset_append mset_rev)

lemma count_and_make_run_shape:
  "snd (count_and_make_run xs) = xs
   \<or> snd (count_and_make_run xs)
       = rev (take (fst (count_and_make_run xs)) xs) @ drop (fst (count_and_make_run xs)) xs"
proof (cases xs)
  case Nil
  then show ?thesis by (simp add: count_and_make_run_def)
next
  case (Cons x ys)
  show ?thesis
  proof (cases ys)
    case Nil
    then show ?thesis using Cons by (simp add: count_and_make_run_def)
  next
    case (Cons y rest)
    then show ?thesis
      using \<open>xs = x # ys\<close> by (simp add: count_and_make_run_def Let_def)
  qed
qed

lemma mset_count_and_make_run: "mset (snd (count_and_make_run xs)) = mset xs"
  using count_and_make_run_shape[of xs] mset_rev_take_drop[of "fst (count_and_make_run xs)" xs]
  by auto

lemma mset_array_sort: "mset (array_sort xs) = mset xs"
proof (cases "count_and_make_run xs")
  case (Pair runLength ys)
  then have "mset ys = mset xs" using mset_count_and_make_run[of xs] by simp
  then show ?thesis
    by (simp add: array_sort_def Pair mset_binary_insertion_sort)
qed

lemma set_array_sort: "set (array_sort xs) = set xs"
  using mset_array_sort by (metis set_mset_mset)

lemma length_array_sort: "length (array_sort xs) = length xs"
  using mset_array_sort by (metis size_mset)

lemma compare_dated:
  "dated a \<Longrightarrow> dated b \<Longrightarrow> compare_commitTime a b = time_of a - time_of b"
  by (auto simp: compare_commitTime_def dated_def time_of_def split: js_date.splits)

lemma run_tail_le: "run_tail d prev rest \<le> length rest"
  by (induction rest arbitrary: prev) auto

lemma run_tail_ascending:
  "\<forall>c\<in>set (prev # rest). dated c \<Longrightarrow>
     sorted (map time_of (prev # take (run_tail False prev rest) rest))"
proof (induction rest arbitrary: prev)
  case Nil
  then show ?case by simp
next
  case (Cons cur rest)
  show ?case
  proof (cases "compare_commitTime cur prev < 0")
    case True
    then show ?thesis by simp
  next
    case False
    then have "time_of prev \<le> time_of cur"
      using Cons.prems by (simp add: compare_dated)
    moreover have "sorted (map time_of (cur # take (run_tail False cur rest) rest))"
      using Cons.IH[of cur] Cons.prems by simp
    ultimately show ?thesis using False by fastforce
  qed
qed

lemma run_tail_descending:
  "\<forall>c\<in>set (prev # rest). dated c \<Longrightarrow>
     sorted (map time_of (rev (prev # take (run_tail True prev rest) rest)))"
proof -
  assume dated: "\<forall>c\<in>set (prev # rest). dated c"
  have "sorted_wrt (\<lambda>x y. time_of y \<le> time_of x) (prev # take (run_tail True prev rest) rest)"
    using dated
  proof (induction rest arbitrary: prev)
    case Nil
    then show ?case by simp
  next
    case (Cons cur rest)
    show ?case
    proof (cases "compare_commitTime cur prev \<ge> 0")
      case True
      then show ?thesis by simp
    next
      case False
      then have le: "time_of cur \<le> time_of prev"
        using Cons.prems by (simp add: compare_dated)
      have tail: "sorted_wrt (\<lambda>x y. time_of y \<le> time_of x)
                    (cur # take (run_tail True cur rest) rest)"
        using Cons.IH[of cur] Cons.prems by simp
      then have "\<forall>y\<in>set (take (run_tail True cur rest) rest). time_of y \<le> time_of prev"
        using le by auto
      then show ?thesis using False le tail by simp
    qed
  qed
  then show ?thesis
    by (simp only: sorted_wrt_map sorted_wrt_rev)
qed

lemma count_and_make_run_sorted:
  assumes "\<forall>c\<in>set xs. dated c"
  shows "sorted (map time_of (take (fst (count_and_make_run xs)) (snd (count_and_make_run xs))))
         \<and> fst (count_and_make_run xs) \<le> length xs
         \<and> (2 \<le> length xs \<longrightarrow> 2 \<le> fst (count_and_make_run xs))"
proof (cases xs)
  case Nil
  then show ?thesis by (simp add: count_and_make_run_def)
next
  case (Cons x ys)
  show ?thesis
  proof (cases ys)
    case Nil
    then show ?thesis using Cons by (simp add: count_and_make_run_def)
  next
    case (Cons y rest)
    have xs: "xs = x # y # rest" using \<open>xs = x # ys\<close> Cons by simp
    have d: "dated x" "\<forall>c\<in>set (y # rest). dated c" using assms xs by auto
    show ?thesis
    proof (cases "compare_commitTime y x < 0")
      case True
      let ?k = "run_tail True y rest"
      have "time_of y \<le> time_of x" using True d by (simp add: compare_dated)
      moreover have "sorted (map time_of (rev (y # take ?k rest)))"
        using run_tail_descending[OF d(2)] .
      ultimately have "sorted (map time_of (rev (x # y # take ?k rest)))"
        by (auto simp: sorted_append)
      moreover have "?k \<le> length rest" by (rule run_tail_le)
      ultimately show ?thesis
        using True by (simp add: xs count_and_make_run_def Let_def)
    next
      case False
      let ?k = "run_tail False y rest"
      have "time_of x \<le> time_of y" using False d by (simp add: compare_dated)
      moreover have "sorted (map time_of (y # take ?k rest))"
        using run_tail_ascending[OF d(2)] .
      ultimately have "sorted (map time_of (x # y # take ?k rest))"
        by fastforce
      moreover have "?k \<le> length rest" by (rule run_tail_le)
      ultimately show ?thesis
        using False by (simp add: xs count_and_make_run_def Let_def)
    qed
  qed
qed

lemma sorted_prefix_nth:
  assumes "sorted (map time_of (take start xs))" and "i \<le> j" and "j < start" and "start \<le> length xs"
  shows "time_of (xs ! i) \<le> time_of (xs ! j)"
proof -
  have "map time_of (take start xs) ! i \<le> map time_of (take start xs) ! j"
    using assms by (intro sorted_nth_mono) simp_all
  then show ?thesis using assms by simp
qed

lemma binary_search_position:
  assumes "sorted (map time_of (take start xs))" and "start < length xs"
    and "\<forall>c\<in>set xs. dated c" and "dated pivot"
    and "left \<le> right" and "right \<le> start"
    and "\<forall>i<left. time_of (xs ! i) \<le> time_of pivot"
    and "\<forall>i. right \<le> i \<and> i < start \<longrightarrow> time_of pivot < time_of (xs ! i)"
  shows "(\<forall>i<binary_search pivot xs left right. time_of (xs ! i) \<le> time_of pivot)
       \<and> (\<forall>i. binary_search pivot xs left right \<le> i \<and> i < start
              \<longrightarrow> time_of pivot < time_of (xs ! i))"
  using assms
proof (induction pivot xs left right rule: binary_search.induct)
  case (1 pivot xs left right)
  show ?case
  proof (cases "left < right")
    case False
    then have "left = right" using "1.prems"(5) by simp
    then show ?thesis using "1.prems"(7,8) by (simp add: binary_search_done)
  next
    case True
    let ?mid = "left + (right - left) div 2"
    have mid: "left \<le> ?mid" "?mid < right" using True by auto
    have dm: "dated (xs ! ?mid)" using "1.prems"(2,3,6) mid by simp
    show ?thesis
    proof (cases "compare_commitTime pivot (xs ! ?mid) < 0")
      case less: True
      then have lt: "time_of pivot < time_of (xs ! ?mid)"
        using dm "1.prems"(4) by (simp add: compare_dated)
      have "\<forall>i. ?mid \<le> i \<and> i < start \<longrightarrow> time_of pivot < time_of (xs ! i)"
      proof (intro allI impI)
        fix i assume i: "?mid \<le> i \<and> i < start"
        then have "time_of (xs ! ?mid) \<le> time_of (xs ! i)"
          using sorted_prefix_nth[OF "1.prems"(1), of ?mid i] "1.prems"(2) by simp
        then show "time_of pivot < time_of (xs ! i)" using lt by simp
      qed
      then show ?thesis
        using "1.IH"(1)[OF True less "1.prems"(1,2,3,4) mid(1) _ "1.prems"(7)] mid "1.prems"(6)
        by (simp add: binary_search_lower[OF True less])
    next
      case geq: False
      then have le: "time_of (xs ! ?mid) \<le> time_of pivot"
        using dm "1.prems"(4) by (simp add: compare_dated)
      have "\<forall>i<?mid + 1. time_of (xs ! i) \<le> time_of pivot"
      proof (intro allI impI)
        fix i assume i: "i < ?mid + 1"
        then have "time_of (xs ! i) \<le> time_of (xs ! ?mid)"
          using sorted_prefix_nth[OF "1.prems"(1), of i ?mid] "1.prems"(2,6) mid by simp
        then show "time_of (xs ! i) \<le> time_of pivot" using le by simp
      qed
      then show ?thesis
        using "1.IH"(2)[OF True geq "1.prems"(1,2,3,4) _ "1.prems"(6) _ "1.prems"(8)] mid
        by (simp add: binary_search_upper[OF True geq])
    qed
  qed
qed

lemma insert_at_sorted:
  assumes sorted: "sorted (map time_of (take start xs))" and start: "start < length xs"
    and dated: "\<forall>c\<in>set xs. dated c"
  shows "sorted (map time_of (take (Suc start) (insert_at xs start)))"
proof -
  let ?pivot = "xs ! start"
  let ?left = "binary_search ?pivot xs 0 start"
  let ?L = "take ?left xs"
  let ?R = "take (start - ?left) (drop ?left xs)"
  have l: "?left \<le> start" using binary_search_bounds[of 0 start] by simp
  have pos: "(\<forall>i<?left. time_of (xs ! i) \<le> time_of ?pivot)
           \<and> (\<forall>i. ?left \<le> i \<and> i < start \<longrightarrow> time_of ?pivot < time_of (xs ! i))"
    using binary_search_position[OF sorted start dated, of ?pivot 0 start] dated start by simp
  have LR: "?L @ ?R = take start xs"
    using l by (metis le_add_diff_inverse take_add)
  have len: "length (?L @ ?pivot # ?R) = Suc start"
    using l start by simp
  have "insert_at xs start = (?L @ ?pivot # ?R) @ drop (Suc start) xs"
    by (simp add: insert_at_def Let_def)
  then have prefix: "take (Suc start) (insert_at xs start) = ?L @ ?pivot # ?R"
    using len by (metis append_eq_conv_conj)
  have sL: "sorted (map time_of ?L)" and sR: "sorted (map time_of ?R)"
    and LleR: "\<forall>a\<in>set ?L. \<forall>b\<in>set ?R. time_of a \<le> time_of b"
    using sorted unfolding LR[symmetric] by (auto simp: sorted_append)
  have L: "\<forall>a\<in>set ?L. time_of a \<le> time_of ?pivot"
  proof
    fix a assume "a \<in> set ?L"
    then obtain i where "i < ?left" "a = xs ! i"
      using l start by (auto simp: in_set_conv_nth)
    then show "time_of a \<le> time_of ?pivot" using pos by simp
  qed
  have R: "\<forall>b\<in>set ?R. time_of ?pivot \<le> time_of b"
  proof
    fix b assume "b \<in> set ?R"
    then obtain i where "i < start - ?left" "b = xs ! (?left + i)"
      using l start by (auto simp: in_set_conv_nth)
    then have "time_of ?pivot < time_of b" using pos by simp
    then show "time_of ?pivot \<le> time_of b" by simp
  qed
  show ?thesis
    unfolding prefix using sL sR L R LleR by (auto simp: sorted_append)
qed

lemma insert_at_steps:
  assumes "sorted (map time_of (take start xs))" and "\<forall>c\<in>set xs. dated c"
    and "start + k \<le> length xs"
  shows "sorted (map time_of
           (take (start + k) (fold (\<lambda>s ys. insert_at ys s) [start..<start + k] xs)))
       \<and> mset (fold (\<lambda>s ys. insert_at ys s) [start..<start + k] xs) = mset xs"
  using assms(3)
proof (induction k)
  case 0
  then show ?case using assms(1) by simp
next
  case (Suc k)
  let ?ys = "fold (\<lambda>s ys. insert_at ys s) [start..<start + k] xs"
  have ih: "sorted (map time_of (take (start + k) ?ys))" "mset ?ys = mset xs"
    using Suc by simp_all
  have len: "length ?ys = length xs" using ih(2) by (metis size_mset)
  have set: "set ?ys = set xs" using ih(2) by (metis set_mset_mset)
  have lt: "start + k < length ?ys" using Suc.prems len by simp
  have d: "\<forall>c\<in>set ?ys. dated c" using assms(2) set by simp
  have "sorted (map time_of (take (Suc (start + k)) (insert_at ?ys (start + k))))"
    using insert_at_sorted[OF ih(1) lt d] .
  moreover have "mset (insert_at ?ys (start + k)) = mset xs"
    using mset_insert_at[OF lt] ih(2) by simp
  ultimately show ?case by simp
qed

lemma array_sort_sorted:
  assumes "\<forall>c\<in>set xs. dated c"
  shows "sorted (map time_of (array_sort xs))"
proof (cases "length xs < 2")
  case True
  then have "length (map time_of xs) \<le> 1" by simp
  then have "sorted (map time_of xs)"
    by (metis sorted01)
  then show ?thesis using True by (simp add: array_sort_def)
next
  case False
  obtain n ys where run: "count_and_make_run xs = (n, ys)" by (cases "count_and_make_run xs")
  have ys: "mset ys = mset xs" using mset_count_and_make_run[of xs] run by simp
  have len: "length ys = length xs" using ys by (metis size_mset)
  have d: "\<forall>c\<in>set ys. dated c" using assms ys by (metis set_mset_mset)
  have n: "sorted (map time_of (take n ys))" "n \<le> length xs" "2 \<le> n"
    using count_and_make_run_sorted[OF assms] run False by simp_all
  show ?thesis
  proof (cases "n < length xs")
    case True
    have "sorted (map time_of
           (take (n + (length ys - n)) (fold (\<lambda>s ys. insert_at ys s) [n..<n + (length ys - n)] ys)))
       \<and> mset (fold (\<lambda>s ys. insert_at ys s) [n..<n + (length ys - n)] ys) = mset ys"
      using insert_at_steps[OF n(1) d, of "length ys - n"] n(2) len by simp
    moreover have "n + (length ys - n) = length ys" using n(2) len by simp
    ultimately have "sorted (map time_of (take (length ys) (binary_insertion_sort ys n)))"
      and "mset (binary_insertion_sort ys n) = mset ys"
      using n(3) by (simp_all add: binary_insertion_sort_def)
    then have "sorted (map time_of (binary_insertion_sort ys n))"
      by (metis order_refl size_mset take_all)
    then show ?thesis
      using False True by (simp add: array_sort_def run len)
  next
    case all: False
    then have "take n ys = ys" using len by simp
    then show ?thesis
      using False all n(1) by (simp add: array_sort_def run)
  qed
qed

section \<open>The loops of getChangedBranches\<close>

lemma updated_loop_eq:
  "updated_loop api oldCommits es (cs, n) =
     (cs @ map (stamp api) (enumerate n (updated_items oldCommits es)),
      n + length (updated_items oldCommits es))"
proof (induction es arbitrary: cs n)
  case Nil
  then show ?case by (simp add: updated_items_def)
next
  case (Cons p es)
  obtain b h where p: "p = (b, h)" by (cases p)
  show ?case
    using Cons.IH by (simp add: p updated_items_def stamp_def)
qed

lemma added_loop_eq:
  "added_loop api oldCommits newCommits ks (cs, n) =
     (cs @ map (stamp api) (enumerate n (added_items oldCommits newCommits ks)),
      n + length (added_items oldCommits newCommits ks))"
proof (induction ks arbitrary: cs n)
  case Nil
  then show ?case by (simp add: added_items_def)
next
  case (Cons b ks)
  show ?case
    using Cons.IH by (simp add: added_items_def stamp_def)
qed

lemma pushed_changes_eq:
  "pushed_changes api oldCommits newCommits =
     map (stamp api) (enumerate 0 (pushed_items oldCommits newCommits))"
  by (simp add: pushed_changes_def updated_loop_eq added_loop_eq pushed_items_def
      enumerate_append_eq)

lemma set_Object_entries: "set (Object_entries obj) = set obj"
  by (auto simp: Object_entries_def)

lemma set_Object_keys: "set (Object_keys obj) = fst ` set obj"
  by (simp add: Object_keys_def set_Object_entries)

lemma branch_stamp: "branch (stamp api p) = branch (snd p)"
  by (simp add: stamp_def)

lemma oldHash_stamp: "oldHash (stamp api p) = oldHash (snd p)"
  by (simp add: stamp_def)

lemma newHash_stamp: "newHash (stamp api p) = newHash (snd p)"
  by (simp add: stamp_def)

lemma isNew_stamp: "isNew (stamp api p) = isNew (snd p)"
  by (simp add: stamp_def)

lemma map_snd_enumerate_fun: "map (\<lambda>p. f (snd p)) (enumerate n xs) = map f xs"
  by (induction xs arbitrary: n) simp_all

lemma fields_pushed_changes:
  "map (\<lambda>c. (branch c, oldHash c, newHash c, isNew c)) (pushed_changes api oldCommits newCommits)
   = map (\<lambda>c. (branch c, oldHash c, newHash c, isNew c)) (pushed_items oldCommits newCommits)"
  using map_snd_enumerate_fun[of "\<lambda>c. (branch c, oldHash c, newHash c, isNew c)" 0
      "pushed_items oldCommits newCommits"]
  by (simp add: pushed_changes_eq comp_def branch_stamp oldHash_stamp newHash_stamp isNew_stamp)

lemma mset_getChangedBranches:
  "mset (getChangedBranches api oldCommits newCommits) = mset (pushed_changes api oldCommits newCommits)"
  by (simp add: getChangedBranches_def mset_array_sort)

lemma set_getChangedBranches:
  "set (getChangedBranches api oldCommits newCommits) = set (pushed_changes api oldCommits newCommits)"
  by (simp add: getChangedBranches_def set_array_sort)

lemma fields_getChangedBranches:
  "image_mset (\<lambda>c. (branch c, oldHash c, newHash c, isNew c))
     (mset (getChangedBranches api oldCommits newCommits))
   = mset (map (\<lambda>c. (branch c, oldHash c, newHash c, isNew c)) (pushed_items oldCommits newCommits))"
proof -
  have "image_mset (\<lambda>c. (branch c, oldHash c, newHash c, isNew c))
          (mset (getChangedBranches api oldCommits newCommits))
        = mset (map (\<lambda>c. (branch c, oldHash c, newHash c, isNew c))
                  (pushed_changes api oldCommits newCommits))"
    by (simp add: mset_getChangedBranches)
  then show ?thesis
    by (simp only: fields_pushed_changes)
qed

lemma length_getChangedBranches:
  "length (getChangedBranches api oldCommits newCommits) = length (pushed_items oldCommits newCommits)"
  by (simp add: getChangedBranches_def length_array_sort pushed_changes_eq)

lemma branch_pushed_items:
  "c \<in> set (pushed_items oldCommits newCommits) \<Longrightarrow> branch c \<in> fst ` set newCommits"
  by (force simp: pushed_items_def updated_items_def added_items_def set_Object_entries
      set_Object_keys)

lemma branch_pushed_changes:
  "c \<in> set (pushed_changes api oldCommits newCommits) \<Longrightarrow> branch c \<in> fst ` set newCommits"
  by (auto simp: pushed_changes_eq in_set_enumerate_eq branch_stamp
      dest!: branch_pushed_items nth_mem)

lemma mset_Object_entries: "mset (Object_entries obj) = mset obj"
  by (simp add: Object_entries_def)

lemma distinct_Object_keys: "distinct (map fst obj) \<Longrightarrow> distinct (Object_keys obj)"
proof -
  assume "distinct (map fst obj)"
  moreover have "mset (map fst (Object_entries obj)) = mset (map fst obj)"
    using arg_cong[OF mset_Object_entries[of obj], of "image_mset fst"] by simp
  ultimately show ?thesis
    unfolding Object_keys_def by (metis mset_eq_imp_distinct_iff)
qed

lemma filter_key_singleton:
  "distinct (map fst xs) \<Longrightarrow> (b, h) \<in> set xs \<Longrightarrow> filter (\<lambda>p. fst p = b) xs = [(b, h)]"
proof (induction xs)
  case Nil
  then show ?case by simp
next
  case (Cons p xs)
  show ?case
  proof (cases "fst p = b")
    case True
    then have "b \<notin> fst ` set xs" using Cons.prems(1) by auto
    then have "filter (\<lambda>p. fst p = b) xs = []"
      by (auto simp: filter_empty_conv)
    moreover have "p = (b, h)"
      using True Cons.prems \<open>b \<notin> fst ` set xs\<close> by (cases p) force
    ultimately show ?thesis by simp
  next
    case False
    then show ?thesis using Cons by auto
  qed
qed

lemma filter_distinct_singleton:
  "distinct xs \<Longrightarrow> b \<in> set xs \<Longrightarrow> filter (\<lambda>x. x = b) xs = [b]"
  by (induction xs) (auto simp: filter_empty_conv)

lemma absent_branch_pushed_twice:
  assumes d: "distinct (map fst newCommits)"
    and n: "map_of newCommits b = Some h"
    and o: "map_of oldCommits b = None"
    and p: "b \<notin> set object_prototype_names"
  shows "filter (\<lambda>c. branch c = b) (pushed_items oldCommits newCommits)
         = [\<lparr>branch = b, oldHash = Undefined, newHash = Str h, commitTime = Time_value 0,
             url = tree_url b, isNew = False\<rparr>,
            \<lparr>branch = b, oldHash = Null, newHash = Str h, commitTime = Time_value 0,
             url = tree_url b, isNew = True\<rparr>]"
proof -
  have old: "get_prop oldCommits b = Undefined"
    using o p by (simp add: get_prop_def)
  have new: "get_prop newCommits b = Str h"
    using n by (simp add: get_prop_def)
  have de: "distinct (map fst (Object_entries newCommits))"
    using distinct_Object_keys[OF d] by (simp add: Object_keys_def)
  have "(b, h) \<in> set (Object_entries newCommits)"
    using n by (simp add: map_of_SomeD set_Object_entries)
  then have e: "filter (\<lambda>p. fst p = b) (Object_entries newCommits) = [(b, h)]"
    using de by (rule filter_key_singleton[rotated])
  have "b \<in> set (Object_keys newCommits)"
    using n by (force simp: set_Object_keys dest: map_of_SomeD)
  then have k: "filter (\<lambda>x. x = b) (Object_keys newCommits) = [b]"
    using distinct_Object_keys[OF d] by (rule filter_distinct_singleton[rotated])
  have u: "filter (\<lambda>c. branch c = b) (updated_items oldCommits (Object_entries newCommits))
        = map (\<lambda>p. \<lparr>branch = fst p, oldHash = get_prop oldCommits (fst p), newHash = Str (snd p),
                commitTime = Time_value 0, url = tree_url (fst p), isNew = False\<rparr>)
            (filter (\<lambda>p. get_prop oldCommits (fst p) \<noteq> Str (snd p))
               (filter (\<lambda>p. fst p = b) (Object_entries newCommits)))"
    by (simp add: updated_items_def filter_map comp_def conj_commute)
  have a: "filter (\<lambda>c. branch c = b) (added_items oldCommits newCommits (Object_keys newCommits))
        = map (\<lambda>b. \<lparr>branch = b, oldHash = Null, newHash = get_prop newCommits b,
                commitTime = Time_value 0, url = tree_url b, isNew = True\<rparr>)
            (filter (\<lambda>b. \<not> truthy (get_prop oldCommits b))
               (filter (\<lambda>x. x = b) (Object_keys newCommits)))"
    by (simp add: added_items_def filter_map comp_def conj_commute)
  show ?thesis
    by (simp add: pushed_items_def u a e k old new)
qed


lemma absent_branch_reported_twice:
  assumes "distinct (map fst newCommits)"
    and "map_of newCommits b = Some h"
    and "map_of oldCommits b = None"
    and "b \<notin> set object_prototype_names"
  shows "image_mset (\<lambda>c. (branch c, oldHash c, newHash c, isNew c))
           (filter_mset (\<lambda>c. branch c = b) (mset (getChangedBranches api oldCommits newCommits)))
         = {#(b, Undefined, Str h, False), (b, Null, Str h, True)#}"
proof -
  let ?f = "\<lambda>c. (branch c, oldHash c, newHash c, isNew c)"
  let ?M = "mset (getChangedBranches api oldCommits newCommits)"
  have "image_mset ?f (filter_mset (\<lambda>c. branch c = b) ?M)
        = filter_mset (\<lambda>t. fst t = b) (image_mset ?f ?M)"
    by (simp add: filter_mset_image_mset comp_def)
  also have "\<dots> = filter_mset (\<lambda>t. fst t = b) (mset (map ?f (pushed_items oldCommits newCommits)))"
    by (simp only: fields_getChangedBranches)
  also have "\<dots> = mset (map ?f (filter (\<lambda>c. branch c = b) (pushed_items oldCommits newCommits)))"
    by (simp add: filter_mset_image_mset)
  also have "\<dots> = {#(b, Undefined, Str h, False), (b, Null, Str h, True)#}"
    by (simp add: absent_branch_pushed_twice[OF assms])
  finally show ?thesis .
qed

lemma scenario_items:
  "map (\<lambda>c. (branch c, oldHash c, newHash c, isNew c))
     (pushed_items [(''main'', ''aaa1111'')] [(''main'', ''bbb2222''), (''dev'', ''ccc3333'')])
   = [(''main'', Str ''aaa1111'', Str ''bbb2222'', False),
      (''dev'', Undefined, Str ''ccc3333'', False),
      (''dev'', Null, Str ''ccc3333'', True)]"
  by code_simp

lemma first_run_items:
  "map (\<lambda>c. (branch c, oldHash c, newHash c, isNew c))
     (pushed_items [] [(''main'', ''aaa1111'')])
   = [(''main'', Undefined, Str ''aaa1111'', False), (''main'', Null, Str ''aaa1111'', True)]"
  by code_simp

section \<open>The change list\<close>

text \<open>
  Claim C1. For the previous snapshot \<open>{main: "aaa1111"}\<close> and the current snapshot
  \<open>{main: "bbb2222", dev: "ccc3333"}\<close> the claim expects exactly two entries, \<open>main\<close>
  updated and \<open>dev\<close> new. The first loop pushes every branch whose old value differs from
  the new hash, and the value \<^verbatim>\<open>undefined\<close> of an absent branch differs from it; the
  second loop then pushes the absent branches once more with \<^verbatim>\<open>isNew: true\<close>. Whatever
  the commit API answers, the change list of the scenario has three entries: \<open>main\<close>
  updated, \<open>dev\<close> without \<open>isNew\<close> and with an undefined old hash, and \<open>dev\<close> with
  \<open>isNew\<close>.
\<close>

theorem scenario_reports_new_branch_twice:
  "length (getChangedBranches api [(''main'', ''aaa1111'')]
             [(''main'', ''bbb2222''), (''dev'', ''ccc3333'')]) = 3
   \<and> image_mset (\<lambda>c. (branch c, oldHash c, newHash c, isNew c))
        (mset (getChangedBranches api [(''main'', ''aaa1111'')]
                 [(''main'', ''bbb2222''), (''dev'', ''ccc3333'')]))
     = {#(''main'', Str ''aaa1111'', Str ''bbb2222'', False),
         (''dev'', Undefined, Str ''ccc3333'', False),
         (''dev'', Null, Str ''ccc3333'', True)#}"
proof -
  have "length (pushed_items [(''main'', ''aaa1111'')]
                  [(''main'', ''bbb2222''), (''dev'', ''ccc3333'')]) = 3"
    using arg_cong[OF scenario_items, of length] by simp
  then show ?thesis
    by (simp add: length_getChangedBranches fields_getChangedBranches scenario_items)
qed

text \<open>
  Claim C2. A branch of the current snapshot that the previous one lacks should have exactly
  one entry, marked new. With an empty previous snapshot and the current snapshot
  \<open>{main: "aaa1111"}\<close> the two loops push \<open>main\<close> twice: once with no \<open>isNew\<close> and an
  undefined old hash, once with \<open>isNew\<close> and the old hash \<^verbatim>\<open>null\<close>. Lemma
  \<open>absent_branch_reported_twice\<close> shows the same two entries for every such branch whose
  name is not a property name of \<^verbatim>\<open>Object.prototype\<close>.
\<close>

theorem first_run_reports_branch_twice:
  "length (getChangedBranches api [] [(''main'', ''aaa1111'')]) = 2
   \<and> image_mset (\<lambda>c. (branch c, oldHash c, newHash c, isNew c))
        (mset (getChangedBranches api [] [(''main'', ''aaa1111'')]))
     = {#(''main'', Undefined, Str ''aaa1111'', False), (''main'', Null, Str ''aaa1111'', True)#}"
proof -
  have "length (pushed_items [] [(''main'', ''aaa1111'')]) = 2"
    using arg_cong[OF first_run_items, of length] by simp
  then show ?thesis
    by (simp add: length_getChangedBranches fields_getChangedBranches first_run_items)
qed

text \<open>
  Claim C3. The diff of a snapshot against itself is the empty change list. A snapshot binds
  each branch name once, and a commit identifier is not the empty string (which the test
  \<^verbatim>\<open>!oldCommits[branch]\<close> of the second loop takes for an absent branch).
\<close>

theorem diff_against_itself_is_empty:
  assumes "distinct (map fst A)" and "[] \<notin> snd ` set A"
  shows "getChangedBranches api A A = []"
proof -
  have own: "get_prop A b = Str h" if "(b, h) \<in> set A" for b h
    using that assms(1) by (simp add: get_prop_def)
  have "updated_items A (Object_entries A) = []"
    by (auto simp: updated_items_def filter_empty_conv own set_Object_entries)
  moreover have "added_items A A (Object_keys A) = []"
    using assms(2) by (force simp: added_items_def filter_empty_conv own set_Object_keys)
  ultimately show ?thesis
    by (simp add: getChangedBranches_def array_sort_def pushed_changes_eq pushed_items_def)
qed

theorem diff_against_itself_is_empty_witness:
  "distinct (map fst [(''main'', ''aaa1111''), (''7'', ''ccc3333'')])
   \<and> [] \<notin> snd ` set [(''main'', ''aaa1111''), (''7'', ''ccc3333'')]
   \<and> getChangedBranches (\<lambda>n h. Network_error) [(''main'', ''aaa1111''), (''7'', ''ccc3333'')]
        [(''main'', ''aaa1111''), (''7'', ''ccc3333'')] = []"
proof -
  have d: "distinct (map fst [(''main'', ''aaa1111''), (''7'', ''ccc3333'')])" by simp
  have e: "[] \<notin> snd ` set [(''main'', ''aaa1111''), (''7'', ''ccc3333'')]" by simp
  show ?thesis
    using d e diff_against_itself_is_empty[OF d e, of "\<lambda>n h. Network_error"] by blast
qed

text \<open>
  Claim C4. A branch that both snapshots bind, to different commit identifiers, has an entry
  in the change list that is not marked new and carries the previous and the new
  identifier, which differ.
\<close>

theorem updated_branch_is_reported:
  assumes "map_of A b = Some a" and "map_of B b = Some h" and "a \<noteq> h"
  shows "\<exists>c \<in> set (getChangedBranches api A B).
           branch c = b \<and> \<not> isNew c \<and> oldHash c = Str a \<and> newHash c = Str h
           \<and> oldHash c \<noteq> newHash c"
proof -
  let ?it = "\<lparr>branch = b, oldHash = Str a, newHash = Str h, commitTime = Time_value 0,
               url = tree_url b, isNew = False\<rparr>"
  have "(b, h) \<in> set (Object_entries B)"
    using assms(2) by (simp add: map_of_SomeD set_Object_entries)
  moreover have "get_prop A b = Str a"
    using assms(1) by (simp add: get_prop_def)
  ultimately have "?it \<in> set (updated_items A (Object_entries B))"
    using assms(3) by (force simp: updated_items_def)
  then have "?it \<in> set (pushed_items A B)"
    by (simp add: pushed_items_def)
  then obtain i where i: "i < length (pushed_items A B)" "pushed_items A B ! i = ?it"
    by (auto simp: in_set_conv_nth)
  then have "stamp api (i, ?it) \<in> set (pushed_changes api A B)"
    by (force simp: pushed_changes_eq in_set_enumerate_eq)
  then show ?thesis
    using assms(3)
    by (auto simp: set_getChangedBranches branch_stamp oldHash_stamp newHash_stamp isNew_stamp
        intro!: bexI[of _ "stamp api (i, ?it)"])
qed

theorem updated_branch_is_reported_witness:
  "map_of [(''main'', ''aaa1111'')] ''main'' = Some ''aaa1111''
   \<and> map_of [(''main'', ''bbb2222''), (''dev'', ''ccc3333'')] ''main'' = Some ''bbb2222''
   \<and> ''aaa1111'' \<noteq> ''bbb2222''
   \<and> (\<exists>c \<in> set (getChangedBranches (\<lambda>n h. Commit_date 1700000000000) [(''main'', ''aaa1111'')]
                   [(''main'', ''bbb2222''), (''dev'', ''ccc3333'')]).
          branch c = ''main'' \<and> \<not> isNew c \<and> oldHash c = Str ''aaa1111''
          \<and> newHash c = Str ''bbb2222'' \<and> oldHash c \<noteq> newHash c)"
proof -
  have a: "map_of [(''main'', ''aaa1111'')] ''main'' = Some ''aaa1111''" by simp
  have b: "map_of [(''main'', ''bbb2222''), (''dev'', ''ccc3333'')] ''main'' = Some ''bbb2222''"
    by simp
  have n: "''aaa1111'' \<noteq> ''bbb2222''" by simp
  show ?thesis
    using a b n updated_branch_is_reported[OF a b n, of "\<lambda>n h. Commit_date 1700000000000"]
    by blast
qed

lemma stamp_dated:
  "api (fst p) (newHash (snd p)) \<noteq> Undated_body \<Longrightarrow> dated (stamp api p)"
  by (simp add: stamp_def dated_def getBranchCommitTime_def split: api_response.splits)

lemma change_list_dated:
  assumes "\<forall>n h. api n h \<noteq> Undated_body"
  shows "\<forall>c\<in>set (getChangedBranches api oldCommits newCommits). dated c"
  using assms by (auto simp: set_getChangedBranches pushed_changes_eq stamp_dated)

lemma change_list_sorted_when_dated:
  assumes "\<forall>c\<in>set (getChangedBranches api oldCommits newCommits). dated c"
  shows "sorted (map time_of (getChangedBranches api oldCommits newCommits))"
proof -
  have "\<forall>c\<in>set (pushed_changes api oldCommits newCommits). dated c"
    using assms by (simp add: set_getChangedBranches)
  then show ?thesis
    unfolding getChangedBranches_def by (rule array_sort_sorted)
qed

text \<open>
  Claim C5. The change list should be in non-decreasing order of the commit times of its
  entries. It is when every entry has a valid date (lemma
  \<open>change_list_sorted_when_dated\<close>), which is so when no answer of the commit API is an
  undated body (lemma \<open>change_list_dated\<close>). Let \<open>main\<close>, \<open>dev\<close> and \<open>fix\<close> have changed,
  and the API answer with a later date for \<open>main\<close>, a body without a date for \<open>dev\<close> and
  an earlier date for \<open>fix\<close>: \<open>dev\<close> gets the Invalid Date, the comparator is NaN
  against it, and the list comes back as it was pushed, \<open>main\<close> before \<open>fix\<close>.
\<close>

theorem undated_commit_leaves_list_unordered:
  "map (\<lambda>c. (branch c, commitTime c))
     (getChangedBranches
        (\<lambda>n h. if n = 0 then Commit_date 1700000030000
                else if n = 1 then Undated_body else Commit_date 1700000010000)
        [(''main'', ''aaa1111''), (''dev'', ''bbb2222''), (''fix'', ''ccc3333'')]
        [(''main'', ''ddd4444''), (''dev'', ''eee5555''), (''fix'', ''fff6666'')])
   = [(''main'', Time_value 1700000030000), (''dev'', Invalid_Date),
      (''fix'', Time_value 1700000010000)]"
  by code_simp

text \<open>A request throws inside the \<^verbatim>\<open>try\<close> block when the fetch is rejected, the response
  is not ok, or the body cannot be read down to \<^verbatim>\<open>commit.committer\<close>.\<close>

lemma pushed_changes_failed_request:
  assumes k: "k < length (pushed_changes api A B)"
    and same: "\<forall>n h. n \<noteq> k \<longrightarrow> api' n h = api n h"
    and fails: "\<forall>h. api' k h \<in> {Network_error, Malformed_body} \<union> range Http_error"
  shows "pushed_changes api' A B
         = (pushed_changes api A B)
             [k := (pushed_changes api A B ! k)\<lparr>commitTime := Time_value 0\<rparr>]"
proof (rule nth_equalityI)
  show "length (pushed_changes api' A B) =
        length ((pushed_changes api A B)
                  [k := (pushed_changes api A B ! k)\<lparr>commitTime := Time_value 0\<rparr>])"
    by (simp add: pushed_changes_eq)
next
  fix i assume "i < length (pushed_changes api' A B)"
  then have i: "i < length (pushed_items A B)" by (simp add: pushed_changes_eq)
  have k': "k < length (pushed_items A B)" using k by (simp add: pushed_changes_eq)
  have zero: "getBranchCommitTime (api' k) b h = Time_value 0" for b h
    using fails[rule_format, of h] by (auto simp: getBranchCommitTime_def)
  have eq: "getBranchCommitTime (api' n) b h = getBranchCommitTime (api n) b h"
    if "n \<noteq> k" for n b h
    using same that by (simp add: getBranchCommitTime_def)
  show "pushed_changes api' A B ! i =
        (pushed_changes api A B)
          [k := (pushed_changes api A B ! k)\<lparr>commitTime := Time_value 0\<rparr>] ! i"
    using i k' by (cases "i = k") (simp_all add: pushed_changes_eq nth_enumerate_eq stamp_def zero eq)
qed

lemma thrown_lookup_stays_local:
  assumes "k < length (getChangedBranches api oldCommits newCommits)"
    and "\<forall>n h. n \<noteq> k \<longrightarrow> api' n h = api n h"
    and "\<forall>h. api' k h \<in> {Network_error, Malformed_body} \<union> range Http_error"
  shows "length (getChangedBranches api' oldCommits newCommits)
           = length (getChangedBranches api oldCommits newCommits)
       \<and> pushed_changes api oldCommits newCommits ! k
           \<in># mset (getChangedBranches api oldCommits newCommits)
       \<and> mset (getChangedBranches api' oldCommits newCommits)
           = add_mset ((pushed_changes api oldCommits newCommits ! k)\<lparr>commitTime := Time_value 0\<rparr>)
               (mset (getChangedBranches api oldCommits newCommits)
                  - {#pushed_changes api oldCommits newCommits ! k#})"
proof -
  have k: "k < length (pushed_changes api oldCommits newCommits)"
    using assms(1) by (simp add: length_getChangedBranches pushed_changes_eq)
  have upd: "pushed_changes api' oldCommits newCommits
      = (pushed_changes api oldCommits newCommits)
          [k := (pushed_changes api oldCommits newCommits ! k)\<lparr>commitTime := Time_value 0\<rparr>]"
    using k assms(2,3) by (rule pushed_changes_failed_request)
  have "length (getChangedBranches api' oldCommits newCommits)
          = length (getChangedBranches api oldCommits newCommits)"
    by (simp add: length_getChangedBranches)
  moreover have "pushed_changes api oldCommits newCommits ! k
      \<in># mset (getChangedBranches api oldCommits newCommits)"
    using k by (simp add: mset_getChangedBranches)
  moreover have "mset (getChangedBranches api' oldCommits newCommits)
      = add_mset ((pushed_changes api oldCommits newCommits ! k)\<lparr>commitTime := Time_value 0\<rparr>)
          (mset (getChangedBranches api oldCommits newCommits)
             - {#pushed_changes api oldCommits newCommits ! k#})"
    using k by (simp add: mset_getChangedBranches upd mset_update)
  ultimately show ?thesis by blast
qed

lemma thrown_lookup_example:
  "getChangedBranches (\<lambda>n h. if n = 1 then Http_error 403 else Commit_date (10 + int n))
     [(''main'', ''aaa1111'')] [(''main'', ''bbb2222''), (''dev'', ''ccc3333'')]
   = [\<lparr>branch = ''dev'', oldHash = Undefined, newHash = Str ''ccc3333'',
        commitTime = Time_value 0,
        url = ''https://github.com/cmliu/edgetunnel/tree/dev'', isNew = False\<rparr>,
      \<lparr>branch = ''main'', oldHash = Str ''aaa1111'', newHash = Str ''bbb2222'',
        commitTime = Time_value 10,
        url = ''https://github.com/cmliu/edgetunnel/tree/main'', isNew = False\<rparr>,
      \<lparr>branch = ''dev'', oldHash = Null, newHash = Str ''ccc3333'',
        commitTime = Time_value 12,
        url = ''https://github.com/cmliu/edgetunnel/tree/dev'', isNew = True\<rparr>]"
  by code_simp

text \<open>
  Claim C6. A lookup that gives no commit time should neither stop the diff nor touch
  another entry, and its own entry should carry the time \<open>0\<close> of \<^verbatim>\<open>new Date(0)\<close>. Nothing
  can stop the diff, and for a request that throws the rest holds (lemma
  \<open>thrown_lookup_stays_local\<close>: the entry of that request has the time \<open>0\<close>, all others
  are as before). A response that is ok with a body that has \<^verbatim>\<open>commit.committer\<close> and no
  date throws nothing: the \<^verbatim>\<open>catch\<close> is not entered and the entry carries the Invalid
  Date. Below \<open>main\<close> and \<open>dev\<close> have changed and the lookup for \<open>dev\<close> gets such a body.
\<close>

theorem undated_commit_gets_no_sentinel:
  "map (\<lambda>c. (branch c, commitTime c))
     (getChangedBranches (\<lambda>n h. if n = 1 then Undated_body else Commit_date 1700000010000)
        [(''main'', ''aaa1111''), (''dev'', ''ccc3333'')]
        [(''main'', ''bbb2222''), (''dev'', ''ddd4444'')])
   = [(''main'', Time_value 1700000010000), (''dev'', Invalid_Date)]"
  by code_simp

text \<open>
  Claim C9. Every entry of the change list names a branch of the current snapshot; a branch
  that only the previous snapshot has is named by no entry.
\<close>

theorem reported_branches_are_current:
  "(\<forall>c \<in> set (getChangedBranches api oldCommits newCommits). branch c \<in> fst ` set newCommits)
   \<and> (\<forall>b. b \<in> fst ` set oldCommits \<and> b \<notin> fst ` set newCommits
          \<longrightarrow> b \<notin> branch ` set (getChangedBranches api oldCommits newCommits))"
  by (auto simp: set_getChangedBranches dest: branch_pushed_changes)

theorem reported_branches_are_current_witness:
  "list_all (\<lambda>c. branch c \<in> fst ` set [(''main'', ''bbb2222'')])
     (getChangedBranches (\<lambda>n h. Network_error) [(''main'', ''aaa1111''), (''old'', ''ddd4444'')]
        [(''main'', ''bbb2222'')])
   \<and> ''old'' \<notin> branch ` set (getChangedBranches (\<lambda>n h. Network_error)
        [(''main'', ''aaa1111''), (''old'', ''ddd4444'')] [(''main'', ''bbb2222'')])"
proof -
  note t = reported_branches_are_current[of "\<lambda>n h. Network_error"
      "[(''main'', ''aaa1111''), (''old'', ''ddd4444'')]" "[(''main'', ''bbb2222'')]"]
  have deleted: "''old'' \<in> fst ` set [(''main'', ''aaa1111''), (''old'', ''ddd4444'')]
      \<and> ''old'' \<notin> fst ` set [(''main'', ''bbb2222'')]"
    by simp
  have "''old'' \<notin> branch ` set (getChangedBranches (\<lambda>n h. Network_error)
        [(''main'', ''aaa1111''), (''old'', ''ddd4444'')] [(''main'', ''bbb2222'')])"
    using t deleted by blast
  moreover have "list_all (\<lambda>c. branch c \<in> fst ` set [(''main'', ''bbb2222'')])
     (getChangedBranches (\<lambda>n h. Network_error) [(''main'', ''aaa1111''), (''old'', ''ddd4444'')]
        [(''main'', ''bbb2222'')])"
    using t unfolding list_all_iff by blast
  ultimately show ?thesis by blast
qed

section \<open>The run\<close>

lemma main_listing_fails:
  "getLatestCommits w = Inl err \<Longrightarrow> main w = fatal w (last_commit_file w) [] err"
  by (simp add: main_def)

lemma main_mirror_fails:
  assumes "reaches_syncRepo w" and "snd (syncRepo w) = Some err"
  shows "main w = fatal w (last_commit_file w) (fst (syncRepo w)) err"
proof -
  obtain latestText where l: "getLatestCommits w = Inr latestText"
      "latestText \<noteq> readLastCommits w"
      "readLastCommits w = [] \<or> returns (parseCommitsData (readLastCommits w))"
      "returns (parseCommitsData latestText)"
    using assms(1) by (auto simp: reaches_syncRepo_def split: sum.splits)
  obtain newCommits where n: "parseCommitsData latestText = Inr newCommits"
    using l(4) by (cases "parseCommitsData latestText") (simp_all add: returns_def)
  have "\<exists>oldCommits.
          (if readLastCommits w \<noteq> [] then parseCommitsData (readLastCommits w) else Inr [])
          = Inr oldCommits"
    using l(3) by (cases "parseCommitsData (readLastCommits w)") (auto simp: returns_def)
  then obtain oldCommits where o:
    "(if readLastCommits w \<noteq> [] then parseCommitsData (readLastCommits w) else Inr [])
     = Inr oldCommits"
    by blast
  obtain evs where s: "syncRepo w = (evs, Some err)"
    using assms(2) by (cases "syncRepo w") simp
  show ?thesis
    using l(1,2) n o s by (simp add: main_def Let_def)
qed

lemma syncRepo_events: "set (fst (syncRepo w)) \<subseteq> {Rm_local_repo, Git_clone}"
  by (auto simp: syncRepo_def split: option.splits)

text \<open>
  Claim C7. When the trimmed output of \<^verbatim>\<open>git ls-remote\<close> is the trimmed content of the
  snapshot file, the run of either script does nothing: no clone, no write of the snapshot
  file, no message, and it ends normally.
\<close>

theorem unchanged_text_short_circuits:
  assumes "getLatestCommits w = Inr latestText" and "readLastCommits w = latestText"
  shows "main w = \<lparr>file_after = last_commit_file w, events = [], exit_status = 0\<rparr>
       \<and> main_legacy w = \<lparr>file_after = last_commit_file w, events = [], exit_status = 0\<rparr>"
  using assms by (simp add: main_def main_legacy_def)

theorem unchanged_text_short_circuits_witness:
  "getLatestCommits unchanged_world = Inr (''aaa1111'' @ [TAB] @ ''refs/heads/main'')
   \<and> readLastCommits unchanged_world = ''aaa1111'' @ [TAB] @ ''refs/heads/main''
   \<and> main unchanged_world
       = \<lparr>file_after = last_commit_file unchanged_world, events = [], exit_status = 0\<rparr>
   \<and> main_legacy unchanged_world
       = \<lparr>file_after = last_commit_file unchanged_world, events = [], exit_status = 0\<rparr>"
proof -
  have latest: "getLatestCommits unchanged_world = Inr (''aaa1111'' @ [TAB] @ ''refs/heads/main'')"
    by code_simp
  have last: "readLastCommits unchanged_world = ''aaa1111'' @ [TAB] @ ''refs/heads/main''"
    by code_simp
  show ?thesis
    using latest last unchanged_text_short_circuits[OF latest last] by blast
qed

text \<open>
  Claim C8. When the listing of the remote fails, or the run gets as far as \<^verbatim>\<open>syncRepo\<close>
  and a command of \<^verbatim>\<open>syncRepo\<close> fails, the run hands the failure notice with the
  message of that error to \<^verbatim>\<open>sendTelegramMessage\<close> as its last act (a request is made
  when Telegram is configured), exits with status \<open>1\<close>, and has not written the snapshot
  file, which is as the run found it.
\<close>

theorem fatal_error_notifies_and_exits:
  assumes "getLatestCommits w = Inl err \<or> (reaches_syncRepo w \<and> snd (syncRepo w) = Some err)"
  shows "exit_status (main w) = 1
       \<and> file_after (main w) = last_commit_file w
       \<and> (\<exists>evs. events (main w) = evs @ sendTelegramMessage w (Failure_report err)
                \<and> (\<forall>t. Write_last_commits t \<notin> set evs))
       \<and> (telegram_configured w \<longrightarrow> last (events (main w)) = Telegram_post (Failure_report err))"
proof -
  from assms obtain evs where m: "main w = fatal w (last_commit_file w) evs err"
    and evs: "set evs \<subseteq> {Rm_local_repo, Git_clone}"
    using main_listing_fails main_mirror_fails syncRepo_events
    by (metis empty_set empty_subsetI)
  have "\<forall>t. Write_last_commits t \<notin> set evs" using evs by auto
  then show ?thesis
    by (auto simp: m fatal_def sendTelegramMessage_def)
qed

theorem fatal_error_notifies_and_exits_witness:
  "reaches_syncRepo clone_fails_world
   \<and> snd (syncRepo clone_fails_world) = Some (Exec_error ''Command failed: git clone'')
   \<and> exit_status (main clone_fails_world) = 1
   \<and> file_after (main clone_fails_world) = None
   \<and> events (main clone_fails_world)
       = [Git_clone, Telegram_post (Failure_report (Exec_error ''Command failed: git clone''))]"
proof -
  have reach: "reaches_syncRepo clone_fails_world"
    by code_simp
  have fail: "snd (syncRepo clone_fails_world) = Some (Exec_error ''Command failed: git clone'')"
    by code_simp
  have run: "events (main clone_fails_world)
       = [Git_clone, Telegram_post (Failure_report (Exec_error ''Command failed: git clone''))]"
    by code_simp
  have unwritten: "last_commit_file clone_fails_world = None"
    by (simp add: clone_fails_world_def)
  show ?thesis
    using reach fail run unwritten
      fatal_error_notifies_and_exits[of clone_fails_world
        "Exec_error ''Command failed: git clone''"]
    by simp
qed

section \<open>parseCommitsData\<close>

lemma split_on_unfold:
  "split_on c s =
     takeWhile (\<lambda>x. x \<noteq> c) s
     # (case dropWhile (\<lambda>x. x \<noteq> c) s of [] \<Rightarrow> [] | x # r \<Rightarrow> split_on c r)"
  by (induction s) (auto split: list.splits)

lemma split_on_no_separator: "c \<notin> set s \<Longrightarrow> split_on c s = [s]"
  by (induction s) auto

lemma split_on_two_fields:
  assumes "c \<in> set s"
  shows "\<exists>rest. split_on c s =
           takeWhile (\<lambda>x. x \<noteq> c) s
           # takeWhile (\<lambda>x. x \<noteq> c) (drop 1 (dropWhile (\<lambda>x. x \<noteq> c) s)) # rest"
proof -
  from assms obtain r where r: "dropWhile (\<lambda>x. x \<noteq> c) s = c # r"
    by (metis (mono_tags, lifting) dropWhile_eq_Nil_conv hd_dropWhile list.collapse)
  have "split_on c s = takeWhile (\<lambda>x. x \<noteq> c) s # split_on c r"
    using split_on_unfold[of c s] by (simp add: r)
  moreover obtain rest where "split_on c r = takeWhile (\<lambda>x. x \<noteq> c) r # rest"
    using split_on_unfold[of c r] by blast
  ultimately show ?thesis by (simp add: r)
qed

lemma trim_empty_iff: "trim s = [] \<longleftrightarrow> blank s"
proof -
  have "(\<forall>x\<in>set (dropWhile is_white_space s). is_white_space x)
        \<longleftrightarrow> dropWhile is_white_space s = []"
    by (metis hd_dropWhile list.set_sel(1) empty_iff list.set(1))
  then show ?thesis
    by (simp add: trim_def blank_def list_all_iff)
qed

lemma forEach_line_returns:
  "\<forall>line\<in>set ls. TAB \<in> set line \<Longrightarrow> forEach_line commits ls = Inr (fold store_line ls commits)"
proof (induction ls arbitrary: commits)
  case Nil
  then show ?case by simp
next
  case (Cons line ls)
  then have "TAB \<in> set line" by simp
  then obtain rest where "split_on TAB line = line_hash line # line_ref line # rest"
    using split_on_two_fields[of TAB line] by (auto simp: line_hash_def line_ref_def)
  then show ?case
    using Cons by (simp add: store_line_def line_branch_def)
qed

lemma forEach_line_throws:
  "\<exists>line\<in>set ls. TAB \<notin> set line \<Longrightarrow> forEach_line commits ls = Inl TypeError"
proof (induction ls arbitrary: commits)
  case Nil
  then show ?case by simp
next
  case (Cons line ls)
  show ?case
  proof (cases "TAB \<in> set line")
    case True
    then obtain rest where "split_on TAB line = line_hash line # line_ref line # rest"
      using split_on_two_fields[of TAB line] by (auto simp: line_hash_def line_ref_def)
    moreover have "\<exists>line\<in>set ls. TAB \<notin> set line" using Cons.prems True by auto
    ultimately show ?thesis using Cons.IH by simp
  next
    case False
    then show ?thesis by (simp add: split_on_no_separator)
  qed
qed

lemma map_of_set_prop:
  "map_of (set_prop obj k v) = (if k = ''__proto__'' then map_of obj else (map_of obj)(k \<mapsto> v))"
  by (simp add: set_prop_def update_conv')

lemma distinct_set_prop: "distinct (map fst obj) \<Longrightarrow> distinct (map fst (set_prop obj k v))"
  by (simp add: set_prop_def distinct_update)

lemma distinct_fold_store_line:
  "distinct (map fst commits) \<Longrightarrow> distinct (map fst (fold store_line ls commits))"
  by (induction ls arbitrary: commits) (simp_all add: store_line_def distinct_set_prop)

lemma map_of_fold_store_line:
  "map_of (fold store_line ls commits) b =
     (if b = ''__proto__'' then map_of commits b
      else (case map_of (rev (map (\<lambda>line. (line_branch line, line_hash line)) ls)) b of
              Some h \<Rightarrow> Some h
            | None \<Rightarrow> map_of commits b))"
proof (induction ls arbitrary: commits)
  case Nil
  then show ?case by simp
next
  case (Cons line ls)
  have step: "map_of (store_line line commits) =
      (if line_branch line = ''__proto__'' then map_of commits
       else (map_of commits)(line_branch line \<mapsto> line_hash line))"
    by (simp add: store_line_def map_of_set_prop)
  show ?case
    by (simp add: Cons.IH step map_add_def split: option.splits)
qed

lemma parseCommitsData_returns:
  assumes "\<forall>line\<in>set (split_on LF text). \<not> blank line \<longrightarrow> TAB \<in> set line"
  shows "\<exists>commits. parseCommitsData text = Inr commits \<and> distinct (map fst commits)
           \<and> (\<forall>b. map_of commits b = (if b = ''__proto__'' then None else last_binding text b))"
proof -
  let ?ls = "filter (\<lambda>line. \<not> blank line) (split_on LF text)"
  have "parseCommitsData text = Inr (fold store_line ?ls [])"
    using assms by (simp add: parseCommitsData_def trim_empty_iff forEach_line_returns)
  moreover have "distinct (map fst (fold store_line ?ls []))"
    by (simp add: distinct_fold_store_line)
  moreover have "map_of (fold store_line ?ls []) b = (if b = ''__proto__'' then None else last_binding text b)" for b
    by (simp add: map_of_fold_store_line last_binding_def named_bindings_def split: option.splits)
  ultimately show ?thesis by blast
qed

lemma parseCommitsData_throws:
  assumes "\<exists>line\<in>set (split_on LF text). \<not> blank line \<and> TAB \<notin> set line"
  shows "parseCommitsData text = Inl TypeError"
  using assms by (auto simp: parseCommitsData_def trim_empty_iff intro!: forEach_line_throws)

text \<open>
  Claim C10. On a text whose non-blank lines all have a tab, \<^verbatim>\<open>parseCommitsData\<close> returns
  an object with each branch name once, bound to the hash of the last line that names it,
  blank lines being skipped; on a text with a non-blank line without a tab it throws. The
  two lemmas above prove this for every branch name but one. The line
  \<^verbatim>\<open>abc<TAB>refs/heads/__proto__\<close> names the branch \<^verbatim>\<open>__proto__\<close> with the hash
  \<^verbatim>\<open>abc\<close>, and the object returned for it has no own property at all: the assignment
  \<^verbatim>\<open>commits[branch] = hash\<close> runs the inherited setter of \<^verbatim>\<open>__proto__\<close>, which ignores
  a string.
\<close>

theorem proto_branch_is_not_stored:
  "named_bindings (''abc'' @ [TAB] @ ''refs/heads/__proto__'') = [(''__proto__'', ''abc'')]
   \<and> parseCommitsData (''abc'' @ [TAB] @ ''refs/heads/__proto__'') = Inr []
   \<and> parseCommitsData (''abc'' @ [TAB] @ ''refs/heads/main'') = Inr [(''main'', ''abc'')]"
  by code_simp

end
